theory Spec2Isabelle
  imports Complex_Main "HOL-Library.Sublist"
begin

section \<open>Python string primitives used by \<open>clean_report.py\<close>\<close>

text \<open>
  A Python \<open>str\<close> is modelled as a \<open>string\<close>, a list of characters. An Isabelle
  character has eight bits, so the model covers texts whose code points are below 256;
  in that range the decimal digits of the regular expression class \<open>\d\<close> are exactly
  \<open>0\<close> to \<open>9\<close>. Python integers are unbounded and are modelled as \<open>int\<close>; the
  interpreter's configurable limit on the length of a numeral given to \<open>int()\<close> is
  not modelled. The content of a file is the text that \<open>f.read()\<close> returns.
\<close>

definition NL :: char where
  "NL = CHR 0x0A"

text \<open>The three literals of \<open>filter_report\<close>: the separator \<open>'\n---'\<close>, the marker
  of a magic value issue and the label of the summary line.\<close>

definition SEP :: string where
  "SEP = NL # ''---''"

definition MARKER :: string where
  "MARKER = ''#### Magic value''"

definition LABEL :: string where
  "LABEL = ''- **Issues Found:** ''"

text \<open>\<open>m in s\<close>: the substring test.\<close>

fun str_in :: "string \<Rightarrow> string \<Rightarrow> bool" where
  "str_in m [] = (m = [])"
| "str_in m (c # cs) = (prefix m (c # cs) \<or> str_in m cs)"

text \<open>\<open>s.partition(sep)\<close> for a separator that is not empty: the text before the
  leftmost occurrence of \<open>sep\<close> and the text after it, or \<open>None\<close> when \<open>sep\<close> does
  not occur.\<close>

fun str_partition :: "string \<Rightarrow> string \<Rightarrow> (string \<times> string) option" where
  "str_partition sep [] = None"
| "str_partition sep (c # cs) =
     (if prefix sep (c # cs) then Some ([], drop (length sep) (c # cs))
      else (case str_partition sep cs of
              None \<Rightarrow> None
            | Some (a, b) \<Rightarrow> Some (c # a, b)))"

lemma str_partition_shorter:
  "str_partition sep s = Some (a, b) \<Longrightarrow> sep \<noteq> [] \<Longrightarrow> length b < length s"
proof (induction s arbitrary: a)
  case Nil
  then show ?case by simp
next
  case (Cons c cs)
  show ?case
  proof (cases "prefix sep (c # cs)")
    case True
    with Cons.prems show ?thesis by (cases sep) auto
  next
    case False
    with Cons.prems obtain a' where "str_partition sep cs = Some (a', b)"
      by (auto split: option.splits)
    from Cons.IH [OF this Cons.prems(2)] show ?thesis by simp
  qed
qed

text \<open>\<open>s.split(sep)\<close>: cut at every occurrence of \<open>sep\<close>, found from left to right
  without overlap. Python raises \<open>ValueError\<close> for an empty separator; the program
  only splits on the literal \<open>SEP\<close>, and the model returns the text uncut there.\<close>

function str_split :: "string \<Rightarrow> string \<Rightarrow> string list" where
  "str_split sep s =
     (if sep = [] then [s]
      else (case str_partition sep s of
              None \<Rightarrow> [s]
            | Some (a, b) \<Rightarrow> a # str_split sep b))"
  by pat_completeness auto
termination
  by (relation "measure (\<lambda>(sep, s). length s)") (auto dest: str_partition_shorter)

declare str_split.simps [simp del]

text \<open>\<open>sep.join(xs)\<close>.\<close>

fun str_join :: "string \<Rightarrow> string list \<Rightarrow> string" where
  "str_join sep [] = []"
| "str_join sep [x] = x"
| "str_join sep (x # y # ys) = x @ sep @ str_join sep (y # ys)"

text \<open>\<open>s.replace(old, new)\<close>: every occurrence of \<open>old\<close>, found from left to right
  without overlap, becomes \<open>new\<close>. For an empty \<open>old\<close> Python puts \<open>new\<close> before every
  character and at the end.\<close>

function replace_from :: "string \<Rightarrow> string \<Rightarrow> string \<Rightarrow> string" where
  "replace_from old new [] = []"
| "replace_from old new (c # cs) =
     (if prefix old (c # cs) then new @ replace_from old new (drop (length old - 1) cs)
      else c # replace_from old new cs)"
  by pat_completeness auto
termination
  by (relation "measure (\<lambda>(old, new, s). length s)") auto

definition str_replace :: "string \<Rightarrow> string \<Rightarrow> string \<Rightarrow> string" where
  "str_replace old new s =
     (if old = [] then new @ concat (map (\<lambda>c. c # new) s) else replace_from old new s)"

subsection \<open>Decimal numerals\<close>

definition is_digit :: "char \<Rightarrow> bool" where
  "is_digit c = (c \<in> set ''0123456789'')"

definition digit_val :: "char \<Rightarrow> int" where
  "digit_val c = int (of_char c) - 48"

definition digit_char :: "nat \<Rightarrow> char" where
  "digit_char n = char_of (48 + n)"

text \<open>\<open>int(ds)\<close> on a string of decimal digits; leading zeros are accepted.\<close>

definition py_int :: "string \<Rightarrow> int" where
  "py_int ds = foldl (\<lambda>n c. 10 * n + digit_val c) 0 ds"

text \<open>\<open>str(n)\<close>, as the f-strings render an integer.\<close>

function str_nat :: "nat \<Rightarrow> string" where
  "str_nat n = (if n < 10 then [digit_char n] else str_nat (n div 10) @ [digit_char (n mod 10)])"
  by pat_completeness auto
termination
  by (relation "measure id") auto

declare str_nat.simps [simp del]

definition str_int :: "int \<Rightarrow> string" where
  "str_int i = (if i < 0 then CHR ''-'' # str_nat (nat (- i)) else str_nat (nat i))"

text \<open>\<open>re.search(r'- \*\*Issues Found:\*\* (\d+)', s)\<close>: the leftmost position where
  the label is followed by a digit, with \<open>match.start()\<close> and \<open>match.group(1)\<close>, the
  longest run of digits there.\<close>

fun re_search :: "string \<Rightarrow> (nat \<times> string) option" where
  "re_search [] = None"
| "re_search (c # cs) =
     (if prefix LABEL (c # cs) \<and> takeWhile is_digit (drop (length LABEL) (c # cs)) \<noteq> []
      then Some (0, takeWhile is_digit (drop (length LABEL) (c # cs)))
      else (case re_search cs of
              None \<Rightarrow> None
            | Some (i, ds) \<Rightarrow> Some (Suc i, ds)))"

section \<open>\<open>filter_report\<close>\<close>

text \<open>The loop over \<open>parts\<close>, with its two variables \<open>kept_parts\<close> and
  \<open>magic_value_count\<close> as the state.\<close>

fun filter_loop :: "string list \<Rightarrow> string list \<times> int \<Rightarrow> string list \<times> int" where
  "filter_loop [] (kept_parts, magic_value_count) = (kept_parts, magic_value_count)"
| "filter_loop (part # parts) (kept_parts, magic_value_count) =
     (if str_in MARKER part then filter_loop parts (kept_parts, magic_value_count + 1)
      else filter_loop parts (kept_parts @ [part], magic_value_count))"

definition kept_parts_of :: "string \<Rightarrow> string list" where
  "kept_parts_of content = fst (filter_loop (str_split SEP content) ([], 0))"

definition magic_value_count_of :: "string \<Rightarrow> int" where
  "magic_value_count_of content = snd (filter_loop (str_split SEP content) ([], 0))"

text \<open>The update of the summary line, applied to the rejoined text.\<close>

definition update_summary :: "string \<Rightarrow> int \<Rightarrow> string" where
  "update_summary new_content magic_value_count =
     (case re_search new_content of
        None \<Rightarrow> new_content
      | Some (i, ds) \<Rightarrow>
          (let original_count = py_int ds;
               new_count = original_count - magic_value_count
           in str_replace (LABEL @ str_int original_count) (LABEL @ str_int new_count)
                new_content))"

text \<open>The text transformation of \<open>filter_report\<close>: the text written to the output
  file and the count printed.\<close>

definition filter_text :: "string \<Rightarrow> string \<times> int" where
  "filter_text content =
     (let parts = str_split SEP content;
          (kept_parts, magic_value_count) = filter_loop parts ([], 0);
          new_content = str_join SEP kept_parts
      in (update_summary new_content magic_value_count, magic_value_count))"

subsection \<open>Files, standard output and the command line\<close>

text \<open>
  The world of one run: the text files by path, the paths that can be opened for
  writing, and the trace of what the program did, in order (each \<open>open\<close> and each
  \<open>print\<close>). Opening a path that holds no file for reading, or a path that cannot be
  written for writing, raises \<open>OSError\<close>.
\<close>

datatype io_event = OpenRead string | OpenWrite string | Print string

datatype error = OSError

record world =
  files :: "string \<rightharpoonup> string"
  writable :: "string \<Rightarrow> bool"
  trace :: "io_event list"

definition emit :: "io_event \<Rightarrow> world \<Rightarrow> world" where
  "emit e w = w\<lparr>trace := trace w @ [e]\<rparr>"

text \<open>\<open>filter_report(input_path, output_path)\<close>: read, transform, print the count,
  write. The count is printed before the output file is opened.\<close>

definition filter_report :: "string \<Rightarrow> string \<Rightarrow> world \<Rightarrow> (error + unit) \<times> world" where
  "filter_report input_path output_path w =
     (let w1 = emit (OpenRead input_path) w in
      case files w1 input_path of
        None \<Rightarrow> (Inl OSError, w1)
      | Some content \<Rightarrow>
          (let (new_content, magic_value_count) = filter_text content;
               w2 = emit (Print (''Removed '' @ str_int magic_value_count
                                   @ '' magic value issues.'')) w1;
               w3 = emit (OpenWrite output_path) w2
           in if writable w3 output_path
              then (Inr (), w3\<lparr>files := (files w3)(output_path \<mapsto> new_content)\<rparr>)
              else (Inl OSError, w3)))"

text \<open>The script run as a program with \<open>sys.argv = argv\<close>; the result is the exit
  status of the process. \<open>sys.exit(1)\<close> ends it with status 1, an exception that is
  not caught ends it with status 1, and reaching the end of the script gives 0.\<close>

definition main :: "string list \<Rightarrow> world \<Rightarrow> int \<times> world" where
  "main argv w =
     (if length argv < 3
      then (1, emit (Print ''Usage: python clean_report.py <input> <output>'') w)
      else (case filter_report (argv ! 1) (argv ! 2) w of
              (Inl e, w') \<Rightarrow> (1, w')
            | (Inr u, w') \<Rightarrow> (0, w')))"

section \<open>\<open>gen_jwt.py\<close>\<close>

text \<open>
  Bytes are modelled as characters, one character for one byte. Every string that the
  script encodes is ASCII, so \<open>.encode()\<close> and \<open>.decode()\<close> do not change it.
\<close>

subsection \<open>\<open>base64.urlsafe_b64encode\<close>\<close>

definition b64_alphabet :: string where
  "b64_alphabet = ''ABCDEFGHIJKLMNOPQRSTUVWXYZabcdefghijklmnopqrstuvwxyz0123456789-_''"

definition b64_char :: "nat \<Rightarrow> char" where
  "b64_char i = b64_alphabet ! i"

text \<open>Three bytes give four characters of the alphabet; a last group of one or two
  bytes is padded with \<open>=\<close>. \<open>b64_char\<close> is only applied to numbers below 64.\<close>

fun urlsafe_b64encode :: "string \<Rightarrow> string" where
  "urlsafe_b64encode [] = []"
| "urlsafe_b64encode [a] =
     [b64_char (of_char a div 4), b64_char (of_char a mod 4 * 16), CHR ''='', CHR ''='']"
| "urlsafe_b64encode [a, b] =
     [b64_char (of_char a div 4),
      b64_char (of_char a mod 4 * 16 + of_char b div 16),
      b64_char (of_char b mod 16 * 4), CHR ''='']"
| "urlsafe_b64encode (a # b # c # rest) =
     [b64_char (of_char a div 4),
      b64_char (of_char a mod 4 * 16 + of_char b div 16),
      b64_char (of_char b mod 16 * 4 + of_char c div 64),
      b64_char (of_char c mod 64)] @ urlsafe_b64encode rest"

text \<open>\<open>s.rstrip(b'=')\<close>.\<close>

definition rstrip :: "char \<Rightarrow> string \<Rightarrow> string" where
  "rstrip c s = rev (dropWhile (\<lambda>x. x = c) (rev s))"

definition b64url :: "string \<Rightarrow> string" where
  "b64url data = rstrip (CHR ''='') (urlsafe_b64encode data)"

subsection \<open>\<open>json.dumps\<close> on a dictionary of strings and integers\<close>

datatype json_value = JString string | JNumber int

definition DQ :: char where
  "DQ = CHR 0x22"

definition BACKSLASH :: char where
  "BACKSLASH = CHR 0x5C"

text \<open>A string is written between double quotes, with a backslash before a double
  quote or a backslash. Control characters and characters beyond ASCII, which
  \<open>json.dumps\<close> writes as escapes, do not occur in the literals of the script and are
  not modelled.\<close>

definition json_escape :: "char \<Rightarrow> string" where
  "json_escape c = (if c = DQ \<or> c = BACKSLASH then [BACKSLASH, c] else [c])"

definition json_string :: "string \<Rightarrow> string" where
  "json_string s = [DQ] @ concat (map json_escape s) @ [DQ]"

fun json_value_dumps :: "json_value \<Rightarrow> string" where
  "json_value_dumps (JString s) = json_string s"
| "json_value_dumps (JNumber n) = str_int n"

text \<open>The default separators are \<open>', '\<close> between items and \<open>': '\<close> after a key; the
  items keep the order of the dictionary.\<close>

definition json_dumps :: "(string \<times> json_value) list \<Rightarrow> string" where
  "json_dumps d =
     ''{'' @ str_join '', '' (map (\<lambda>(k, v). json_string k @ '': '' @ json_value_dumps v) d)
       @ ''}''"

subsection \<open>The script\<close>

text \<open>\<open>int(x)\<close> on a float truncates towards zero. A float is a real number, and the
  truncation is exact.\<close>

definition int_of_float :: "real \<Rightarrow> int" where
  "int_of_float x = (if 0 \<le> x then \<lfloor>x\<rfloor> else \<lceil>x\<rceil>)"

definition header_dict :: "(string \<times> json_value) list" where
  "header_dict = [(''alg'', JString ''HS256''), (''typ'', JString ''JWT'')]"

definition payload_dict :: "real \<Rightarrow> (string \<times> json_value) list" where
  "payload_dict time_time =
     [(''sub'', JString ''jwt-user-123''),
      (''scope'', JString ''read:files''),
      (''iss'', JString ''https://test.mcp-guard.io''),
      (''aud'', JString ''mcp-guard''),
      (''exp'', JNumber (int_of_float time_time + 3600))]"

definition secret :: string where
  "secret = ''mcp-guard-test-secret-key-32-chars!!''"

text \<open>The token printed by the script. The parameters are what the script takes from
  outside: \<open>hmac_sha256 key msg\<close>, the digest that
  \<open>hmac.new(key, msg, hashlib.sha256).digest()\<close> returns, and \<open>time_time\<close>, the value of
  \<open>time.time()\<close>.\<close>

definition gen_jwt :: "(string \<Rightarrow> string \<Rightarrow> string) \<Rightarrow> real \<Rightarrow> string" where
  "gen_jwt hmac_sha256 time_time =
     (let header = b64url (json_dumps header_dict);
          payload = b64url (json_dumps (payload_dict time_time));
          signature = b64url (hmac_sha256 secret (header @ ''.'' @ payload))
      in header @ ''.'' @ payload @ ''.'' @ signature)"

subsection \<open>Reading a token\<close>

text \<open>Base64url decoding, as a reader of the token does it: the padding that
  \<open>b64url\<close> stripped is put back and each group of four characters gives up to three
  bytes. A character outside the alphabet or a length that is no multiple of four
  gives \<open>None\<close>.\<close>

fun index_of :: "char \<Rightarrow> string \<Rightarrow> nat option" where
  "index_of c [] = None"
| "index_of c (x # xs) = (if c = x then Some 0 else map_option Suc (index_of c xs))"

definition b64_val :: "char \<Rightarrow> nat option" where
  "b64_val c = index_of c b64_alphabet"

fun urlsafe_b64decode :: "string \<Rightarrow> string option" where
  "urlsafe_b64decode [] = Some []"
| "urlsafe_b64decode (w # x # y # z # rest) =
     (case (b64_val w, b64_val x) of
        (Some i, Some j) \<Rightarrow>
          if y = CHR ''=''
          then (if z = CHR ''='' \<and> rest = [] then Some [char_of (i * 4 + j div 16)] else None)
          else (case b64_val y of
                  None \<Rightarrow> None
                | Some k \<Rightarrow>
                    if z = CHR ''=''
                    then (if rest = []
                          then Some [char_of (i * 4 + j div 16),
                                     char_of (j mod 16 * 16 + k div 4)]
                          else None)
                    else (case (b64_val z, urlsafe_b64decode rest) of
                            (Some l, Some bs) \<Rightarrow>
                              Some (char_of (i * 4 + j div 16)
                                    # char_of (j mod 16 * 16 + k div 4)
                                    # char_of (k mod 4 * 64 + l) # bs)
                          | _ \<Rightarrow> None))
      | _ \<Rightarrow> None)"
| "urlsafe_b64decode _ = None"

definition b64url_decode :: "string \<Rightarrow> string option" where
  "b64url_decode seg =
     urlsafe_b64decode (seg @ replicate ((4 - length seg mod 4) mod 4) (CHR ''=''))"

section \<open>Properties of the primitives\<close>

lemma str_in_sublist: "str_in m s = sublist m s"
  by (induction s) (auto simp: sublist_Cons_right)

lemma filter_loop_acc:
  "filter_loop parts (kept, n) =
     (kept @ filter (\<lambda>p. \<not> str_in MARKER p) parts,
      n + int (length (filter (str_in MARKER) parts)))"
  by (induction parts arbitrary: kept n) auto

lemma str_partition_Some:
  "str_partition sep s = Some (a, b) \<Longrightarrow> s = a @ sep @ b"
proof (induction s arbitrary: a)
  case Nil
  then show ?case by simp
next
  case (Cons c cs)
  show ?case
  proof (cases "prefix sep (c # cs)")
    case True
    with Cons.prems show ?thesis by (auto simp: prefix_def)
  next
    case False
    with Cons.prems obtain a' where a': "str_partition sep cs = Some (a', b)" "a = c # a'"
      by (auto split: option.splits)
    from Cons.IH [OF a'(1)] a'(2) show ?thesis by simp
  qed
qed

lemma str_partition_before:
  "str_partition sep s = Some (a, b) \<Longrightarrow> sep \<noteq> [] \<Longrightarrow> \<not> sublist sep a"
proof (induction s arbitrary: a)
  case Nil
  then show ?case by simp
next
  case (Cons c cs)
  show ?case
  proof (cases "prefix sep (c # cs)")
    case True
    with Cons.prems show ?thesis by auto
  next
    case False
    with Cons.prems obtain a' where a': "str_partition sep cs = Some (a', b)" "a = c # a'"
      by (auto split: option.splits)
    have cs: "cs = a' @ sep @ b" using str_partition_Some [OF a'(1)] .
    have "\<not> prefix sep (c # a')"
    proof
      assume "prefix sep (c # a')"
      then have "prefix sep ((c # a') @ sep @ b)" using prefix_prefix by blast
      with False cs show False by simp
    qed
    with Cons.IH [OF a'(1) Cons.prems(2)] a'(2) show ?thesis
      by (simp add: sublist_Cons_right)
  qed
qed

lemma str_partition_None:
  "str_partition sep s = None \<Longrightarrow> sep \<noteq> [] \<Longrightarrow> \<not> sublist sep s"
  by (induction s) (auto simp: sublist_Cons_right split: if_splits option.splits)

lemma str_split_not_Nil: "str_split sep s \<noteq> []"
  by (subst str_split.simps) (auto split: option.splits)

lemma str_join_Cons: "xs \<noteq> [] \<Longrightarrow> str_join sep (x # xs) = x @ sep @ str_join sep xs"
  by (cases xs) auto

lemma str_join_split: "str_join sep (str_split sep s) = s"
proof (induction sep s rule: str_split.induct)
  case (1 sep s)
  show ?case
  proof (cases "sep = []")
    case True
    then show ?thesis by (subst str_split.simps) simp
  next
    case False
    show ?thesis
    proof (cases "str_partition sep s")
      case None
      with False show ?thesis by (subst str_split.simps) simp
    next
      case (Some ab)
      obtain a b where ab: "ab = (a, b)" by (cases ab)
      from "1.IH" [OF False Some [unfolded ab] refl] have "str_join sep (str_split sep b) = b" .
      moreover have "s = a @ sep @ b" using str_partition_Some Some ab by blast
      ultimately show ?thesis using False Some ab
        by (subst str_split.simps) (simp add: str_join_Cons str_split_not_Nil)
    qed
  qed
qed


lemma str_split_parts_sublist: "p \<in> set (str_split sep s) \<Longrightarrow> sublist p s"
proof (induction sep s rule: str_split.induct)
  case (1 sep s)
  show ?case
  proof (cases "sep = []")
    case True
    with "1.prems" show ?thesis by (subst (asm) str_split.simps) simp
  next
    case False
    show ?thesis
    proof (cases "str_partition sep s")
      case None
      with False "1.prems" show ?thesis by (subst (asm) str_split.simps) simp
    next
      case (Some ab)
      obtain a b where ab: "ab = (a, b)" by (cases ab)
      have s: "s = a @ sep @ b" using str_partition_Some Some ab by blast
      from "1.prems" False Some ab have "p = a \<or> p \<in> set (str_split sep b)"
        by (subst (asm) str_split.simps) simp
      then show ?thesis
      proof
        assume "p = a"
        with s show ?thesis by simp
      next
        assume "p \<in> set (str_split sep b)"
        from "1.IH" [OF False Some [unfolded ab] refl this] have "sublist p b" .
        then have "sublist p (a @ sep @ b)"
          by (metis append_assoc sublist_append_leftI sublist_order.order.trans)
        with s show ?thesis by simp
      qed
    qed
  qed
qed

lemma str_split_parts_free:
  "p \<in> set (str_split sep s) \<Longrightarrow> sep \<noteq> [] \<Longrightarrow> \<not> sublist sep p"
proof (induction sep s rule: str_split.induct)
  case (1 sep s)
  note False = \<open>sep \<noteq> []\<close>
  show ?case
  proof (cases "str_partition sep s")
    case None
    with False "1.prems" str_partition_None show ?thesis
      by (subst (asm) str_split.simps) simp
  next
    case (Some ab)
    obtain a b where ab: "ab = (a, b)" by (cases ab)
    from "1.prems" False Some ab have "p = a \<or> p \<in> set (str_split sep b)"
      by (subst (asm) str_split.simps) simp
    then show ?thesis
    proof
      assume "p = a"
      with str_partition_before Some ab False show ?thesis by blast
    next
      assume "p \<in> set (str_split sep b)"
      from "1.IH" [OF False Some [unfolded ab] refl this False] show ?thesis .
    qed
  qed
qed

lemma replace_from_None:
  "str_partition old s = None \<Longrightarrow> replace_from old new s = s"
  by (induction s) (auto split: if_splits option.splits)

lemma replace_from_Some:
  "str_partition old s = Some (a, b) \<Longrightarrow> old \<noteq> [] \<Longrightarrow>
   replace_from old new s = a @ new @ replace_from old new b"
proof (induction s arbitrary: a)
  case Nil
  then show ?case by simp
next
  case (Cons c cs)
  show ?case
  proof (cases "prefix old (c # cs)")
    case True
    moreover have "drop (length old - 1) cs = drop (length old) (c # cs)"
      using Cons.prems(2) by (cases old) auto
    ultimately show ?thesis using Cons.prems by simp
  next
    case False
    with Cons.prems obtain a' where a': "str_partition old cs = Some (a', b)" "a = c # a'"
      by (auto split: option.splits)
    from Cons.IH [OF a'(1) Cons.prems(2)] a'(2) False show ?thesis by simp
  qed
qed

lemma replace_from_join_split:
  "old \<noteq> [] \<Longrightarrow> replace_from old new s = str_join new (str_split old s)"
proof (induction old s rule: str_split.induct)
  case (1 sep s)
  note False = \<open>sep \<noteq> []\<close>
  show ?case
  proof (cases "str_partition sep s")
    case None
    with False show ?thesis
      by (subst str_split.simps) (simp add: replace_from_None)
  next
    case (Some ab)
    obtain a b where ab: "ab = (a, b)" by (cases ab)
    from "1.IH" [OF False Some [unfolded ab] refl False]
    have "replace_from sep new b = str_join new (str_split sep b)" .
    with False Some ab show ?thesis
      by (subst str_split.simps)
        (simp add: replace_from_Some str_join_Cons str_split_not_Nil)
  qed
qed

lemma str_replace_same: "str_replace x x s = s"
proof (cases "x = []")
  case True
  have "concat (map (\<lambda>c. [c]) s) = s" by (induction s) auto
  with True show ?thesis by (simp add: str_replace_def)
next
  case False
  then show ?thesis by (simp add: str_replace_def replace_from_join_split str_join_split)
qed

lemma sublist_across_sep:
  assumes m: "m \<noteq> []" and sep: "sep \<noteq> []"
    and h1: "hd sep \<notin> set m" and h2: "hd m \<notin> set sep"
    and sub: "sublist m (a @ sep @ b)"
  shows "sublist m a \<or> sublist m b"
proof -
  from sub consider (L) "sublist m a" | (R) "sublist m (sep @ b)"
    | (X) m1 m2 where "m = m1 @ m2" "suffix m1 a" "prefix m2 (sep @ b)"
    by (auto simp: sublist_append)
  then show ?thesis
  proof cases
    case L
    then show ?thesis by simp
  next
    case R
    then consider (S) "sublist m sep" | (B) "sublist m b"
      | (Y) m1 m2 where "m = m1 @ m2" "suffix m1 sep" "prefix m2 b"
      by (auto simp: sublist_append)
    then show ?thesis
    proof cases
      case S
      then have "set m \<subseteq> set sep" by (rule set_mono_sublist)
      with m h2 show ?thesis by (cases m) auto
    next
      case B
      then show ?thesis by simp
    next
      case Y
      show ?thesis
      proof (cases m1)
        case Nil
        with Y show ?thesis by auto
      next
        case (Cons c cs)
        with Y(1) have "hd m = c" by simp
        moreover from Y(2) Cons have "c \<in> set sep" by (auto simp: suffix_def)
        ultimately show ?thesis using h2 by simp
      qed
    qed
  next
    case X
    show ?thesis
    proof (cases m2)
      case Nil
      with X show ?thesis by auto
    next
      case (Cons c cs)
      with X(3) sep have "c = hd sep" by (cases sep) auto
      with X(1) Cons h1 show ?thesis by simp
    qed
  qed
qed

lemma str_join_free:
  assumes "m \<noteq> []" "sep \<noteq> []" "hd sep \<notin> set m" "hd m \<notin> set sep"
  shows "(\<forall>x\<in>set xs. \<not> sublist m x) \<Longrightarrow> \<not> sublist m (str_join sep xs)"
proof (induction xs)
  case Nil
  with assms(1) show ?case by simp
next
  case (Cons x xs)
  show ?case
  proof (cases "xs = []")
    case True
    with Cons.prems show ?thesis by simp
  next
    case False
    from Cons have "\<not> sublist m x" "\<not> sublist m (str_join sep xs)" by simp_all
    with sublist_across_sep [OF assms, of x "str_join sep xs"] False
    show ?thesis by (auto simp: str_join_Cons)
  qed
qed

lemma digit_char_table: "list_all (\<lambda>n. is_digit (digit_char n)) [0..<10]"
  by code_simp

lemma digit_char_digit: "n < 10 \<Longrightarrow> is_digit (digit_char n)"
  using digit_char_table by (simp add: list_all_iff)

lemma str_nat_digits: "c \<in> set (str_nat n) \<Longrightarrow> is_digit c"
proof (induction n rule: str_nat.induct)
  case (1 n)
  show ?case
  proof (cases "n < 10")
    case True
    with "1.prems" show ?thesis
      by (subst (asm) str_nat.simps) (simp add: digit_char_digit)
  next
    case False
    with "1.prems" have "c \<in> set (str_nat (n div 10)) \<or> c = digit_char (n mod 10)"
      by (subst (asm) str_nat.simps) auto
    with "1.IH" [OF False] show ?thesis by (auto simp: digit_char_digit)
  qed
qed

lemma str_int_chars: "c \<in> set (str_int i) \<Longrightarrow> is_digit c \<or> c = CHR ''-''"
  by (auto simp: str_int_def dest: str_nat_digits split: if_splits)

lemma str_nat_not_Nil: "str_nat n \<noteq> []"
  by (subst str_nat.simps) simp

lemma MARKER_not_Nil: "MARKER \<noteq> []"
  by (simp add: MARKER_def)

lemma SEP_not_Nil: "SEP \<noteq> []"
  by (simp add: SEP_def)

lemma LABEL_not_Nil: "LABEL \<noteq> []"
  by (simp add: LABEL_def)

lemma MARKER_vs_SEP: "hd SEP \<notin> set MARKER" "hd MARKER \<notin> set SEP"
  by (simp_all add: MARKER_def SEP_def NL_def)

lemma MARKER_vs_summary:
  "hd (LABEL @ str_int n) \<notin> set MARKER" "hd MARKER \<notin> set (LABEL @ str_int n)"
proof -
  show "hd (LABEL @ str_int n) \<notin> set MARKER"
    by (simp add: MARKER_def LABEL_def)
  have "\<not> is_digit (CHR ''#'')" by (simp add: is_digit_def)
  then have "CHR ''#'' \<notin> set (str_int n)" using str_int_chars by fastforce
  then show "hd MARKER \<notin> set (LABEL @ str_int n)"
    by (simp add: MARKER_def LABEL_def)
qed

lemma str_replace_join_split:
  "old \<noteq> [] \<Longrightarrow> str_replace old new s = str_join new (str_split old s)"
  by (simp add: str_replace_def replace_from_join_split)

lemma str_replace_free:
  assumes "\<not> sublist MARKER s"
  shows "\<not> sublist MARKER (str_replace (LABEL @ x) (LABEL @ str_int n) s)"
proof -
  have old: "LABEL @ x \<noteq> []" by (simp add: LABEL_not_Nil)
  have parts: "\<forall>p\<in>set (str_split (LABEL @ x) s). \<not> sublist MARKER p"
    using assms str_split_parts_sublist sublist_order.order.trans by blast
  have "\<not> sublist MARKER (str_join (LABEL @ str_int n) (str_split (LABEL @ x) s))"
  proof (rule str_join_free)
    show "MARKER \<noteq> []" by (rule MARKER_not_Nil)
    show "LABEL @ str_int n \<noteq> []" by (simp add: LABEL_not_Nil)
    show "hd (LABEL @ str_int n) \<notin> set MARKER" by (rule MARKER_vs_summary)
    show "hd MARKER \<notin> set (LABEL @ str_int n)" by (rule MARKER_vs_summary)
    show "\<forall>p\<in>set (str_split (LABEL @ x) s). \<not> sublist MARKER p" by (rule parts)
  qed
  then show ?thesis unfolding str_replace_join_split [OF old] .
qed

lemma update_summary_free:
  "\<not> sublist MARKER s \<Longrightarrow> \<not> sublist MARKER (update_summary s n)"
  by (auto simp: update_summary_def Let_def str_replace_free split: option.splits)

lemma update_summary_zero: "update_summary s 0 = s"
  by (auto simp: update_summary_def Let_def str_replace_same split: option.splits)

lemma filter_text_eq:
  "filter_text content =
     (update_summary (str_join SEP (kept_parts_of content)) (magic_value_count_of content),
      magic_value_count_of content)"
  by (simp add: filter_text_def kept_parts_of_def magic_value_count_of_def Let_def
      split: prod.splits)

lemma kept_parts_of_filter:
  "kept_parts_of content = filter (\<lambda>p. \<not> str_in MARKER p) (str_split SEP content)"
  by (simp add: kept_parts_of_def filter_loop_acc)

lemma magic_value_count_of_length:
  "magic_value_count_of content = int (length (filter (str_in MARKER) (str_split SEP content)))"
  by (simp add: magic_value_count_of_def filter_loop_acc)

lemma filter_text_blocks_free:
  assumes "\<forall>p\<in>set (str_split SEP content). \<not> str_in MARKER p"
  shows "filter_text content = (content, 0)"
proof -
  from assms have "kept_parts_of content = str_split SEP content"
    by (simp add: kept_parts_of_filter)
  moreover from assms have "magic_value_count_of content = 0"
    by (simp add: magic_value_count_of_length)
  ultimately show ?thesis
    by (simp add: filter_text_eq str_join_split update_summary_zero)
qed

lemma filter_text_free:
  assumes "\<not> sublist MARKER content"
  shows "filter_text content = (content, 0)"
proof (rule filter_text_blocks_free)
  show "\<forall>p\<in>set (str_split SEP content). \<not> str_in MARKER p"
    using assms str_split_parts_sublist sublist_order.order.trans
    unfolding str_in_sublist by blast
qed

lemma rejoined_free: "\<not> sublist MARKER (str_join SEP (kept_parts_of content))"
  by (rule str_join_free [OF MARKER_not_Nil SEP_not_Nil MARKER_vs_SEP])
    (simp add: kept_parts_of_filter str_in_sublist)

lemma output_free: "\<not> sublist MARKER (fst (filter_text content))"
  by (simp add: filter_text_eq update_summary_free rejoined_free)

lemma str_partition_absent:
  "\<not> sublist sep s \<Longrightarrow> str_partition sep s = None"
proof (cases "str_partition sep s")
  case None
  then show ?thesis .
next
  case (Some ab)
  assume no: "\<not> sublist sep s"
  obtain a b where "ab = (a, b)" by (cases ab)
  with Some have "s = a @ sep @ b" by (simp add: str_partition_Some)
  then have "sublist sep s" by simp
  with no show ?thesis by simp
qed

lemma str_partition_at_sep:
  "sep \<noteq> [] \<Longrightarrow> str_partition sep (sep @ b) = Some ([], b)"
  by (cases sep) auto

lemma SEP_no_straddle:
  "prefix SEP (a @ SEP @ b) \<Longrightarrow> a \<noteq> [] \<Longrightarrow> prefix SEP a"
proof -
  assume p: "prefix SEP (a @ SEP @ b)" and a: "a \<noteq> []"
  from a obtain c1 a1 where a1: "a = c1 # a1" by (cases a) auto
  show ?thesis
  proof (cases a1)
    case Nil
    with p a1 show ?thesis by (simp add: SEP_def NL_def)
  next
    case (Cons c2 a2)
    note a2 = this
    show ?thesis
    proof (cases a2)
      case Nil
      with p a1 a2 show ?thesis by (simp add: SEP_def NL_def)
    next
      case (Cons c3 a3)
      note a3 = this
      show ?thesis
      proof (cases a3)
        case Nil
        with p a1 a2 a3 show ?thesis by (simp add: SEP_def NL_def)
      next
        case (Cons c4 a4)
        with p a1 a2 a3 show ?thesis by (auto simp: SEP_def NL_def)
      qed
    qed
  qed
qed

lemma str_partition_SEP:
  "\<not> sublist SEP a \<Longrightarrow> str_partition SEP (a @ SEP @ b) = Some (a, b)"
proof (induction a)
  case Nil
  show ?case using str_partition_at_sep [OF SEP_not_Nil] by simp
next
  case (Cons c a)
  from Cons.prems have np: "\<not> prefix SEP (c # a)" and ns: "\<not> sublist SEP a"
    by (simp_all add: sublist_Cons_right)
  have "\<not> prefix SEP ((c # a) @ SEP @ b)"
    using SEP_no_straddle [of "c # a" b] np by blast
  with Cons.IH [OF ns] show ?case by simp
qed

lemma str_split_SEP_append:
  "\<not> sublist SEP a \<Longrightarrow> str_split SEP (a @ SEP @ b) = a # str_split SEP b"
  by (subst str_split.simps) (simp add: str_partition_SEP SEP_not_Nil)

lemma str_split_absent: "\<not> sublist sep s \<Longrightarrow> str_split sep s = [s]"
  by (subst str_split.simps) (simp add: str_partition_absent)

lemma str_split_join_SEP:
  "xs \<noteq> [] \<Longrightarrow> \<forall>x\<in>set xs. \<not> sublist SEP x \<Longrightarrow> str_split SEP (str_join SEP xs) = xs"
proof (induction xs)
  case Nil
  then show ?case by simp
next
  case (Cons x xs)
  show ?case
  proof (cases "xs = []")
    case True
    with Cons.prems show ?thesis by (simp add: str_split_absent)
  next
    case False
    with Cons show ?thesis by (simp add: str_join_Cons str_split_SEP_append)
  qed
qed

lemma kept_parts_SEP_free: "\<forall>x\<in>set (kept_parts_of content). \<not> sublist SEP x"
  using str_split_parts_free [OF _ SEP_not_Nil] by (auto simp: kept_parts_of_filter)


lemma re_search_digits:
  "re_search s = Some (i, ds) \<Longrightarrow> ds \<noteq> [] \<and> (\<forall>d\<in>set ds. is_digit d)"
proof (induction s arbitrary: i)
  case Nil
  then show ?case by simp
next
  case (Cons c cs)
  show ?case
  proof (cases "prefix LABEL (c # cs) \<and> takeWhile is_digit (drop (length LABEL) (c # cs)) \<noteq> []")
    case True
    with Cons.prems have "ds = takeWhile is_digit (drop (length LABEL) (c # cs))" by simp
    with True show ?thesis by (metis set_takeWhileD)
  next
    case False
    with Cons.prems obtain j where "re_search cs = Some (j, ds)"
      by (auto split: option.splits)
    then show ?thesis by (rule Cons.IH)
  qed
qed

lemma takeWhile_prefix_digits:
  assumes "prefix ds t" "ds \<noteq> []" "\<forall>d\<in>set ds. is_digit d"
  shows "takeWhile is_digit t \<noteq> []"
proof -
  from assms obtain d ds' t' where "ds = d # ds'" "t = d # ds' @ t'"
    by (cases ds) (auto simp: prefix_def)
  with assms(3) show ?thesis by simp
qed

lemma re_search_partition:
  "re_search s = Some (i, ds) \<Longrightarrow>
   str_partition (LABEL @ ds) s
     = Some (take i s, dropWhile is_digit (drop (i + length LABEL) s))"
proof (induction s arbitrary: i)
  case Nil
  then show ?case by simp
next
  case (Cons c cs)
  let ?t = "drop (length LABEL) (c # cs)"
  show ?case
  proof (cases "prefix LABEL (c # cs) \<and> takeWhile is_digit ?t \<noteq> []")
    case True
    with Cons.prems have i: "i = 0" and ds: "ds = takeWhile is_digit ?t" by simp_all
    from True have s: "c # cs = LABEL @ ?t"
      by (metis append_take_drop_id prefix_def append_eq_conv_conj)
    have "?t = ds @ dropWhile is_digit ?t" by (simp add: ds)
    with s have s': "c # cs = (LABEL @ ds) @ dropWhile is_digit ?t" by simp
    then have p: "prefix (LABEL @ ds) (c # cs)" by (metis prefixI)
    have "drop (length (LABEL @ ds)) (c # cs) = dropWhile is_digit ?t"
      by (subst s') simp
    with p i show ?thesis by simp
  next
    case False
    with Cons.prems obtain j where j: "re_search cs = Some (j, ds)" "i = Suc j"
      by (auto split: option.splits)
    from re_search_digits [OF j(1)] have ds: "ds \<noteq> []" "\<forall>d\<in>set ds. is_digit d" by simp_all
    have "\<not> prefix (LABEL @ ds) (c # cs)"
    proof
      assume p: "prefix (LABEL @ ds) (c # cs)"
      then obtain r where r: "c # cs = LABEL @ ds @ r" by (auto simp: prefix_def)
      then have "prefix LABEL (c # cs)" by (metis prefixI)
      moreover have "?t = ds @ r" by (subst r) simp
      then have "takeWhile is_digit ?t \<noteq> []"
        using takeWhile_prefix_digits [of ds ?t] ds by simp
      ultimately show False using False by simp
    qed
    with Cons.IH [OF j(1)] j(2) show ?thesis by simp
  qed
qed

lemma str_replace_nonempty:
  "old \<noteq> [] \<Longrightarrow> str_replace old new s = replace_from old new s"
  by (simp add: str_replace_def)

lemma update_summary_found:
  assumes "re_search s = Some (i, ds)" "str_int (py_int ds) = ds"
  shows "update_summary s n
    = take i s @ LABEL @ str_int (py_int ds - n)
        @ str_replace (LABEL @ ds) (LABEL @ str_int (py_int ds - n))
            (dropWhile is_digit (drop (i + length LABEL) s))"
proof -
  have old: "LABEL @ ds \<noteq> []" by (simp add: LABEL_not_Nil)
  from replace_from_Some [OF re_search_partition [OF assms(1)] old] assms
  show ?thesis by (simp add: update_summary_def Let_def str_replace_nonempty LABEL_not_Nil)
qed


lemma re_search_decomp:
  assumes "re_search s = Some (i, ds)"
  shows "s = take i s @ LABEL @ ds @ dropWhile is_digit (drop (i + length LABEL) s)"
    and "i \<le> length s"
proof -
  from str_partition_Some [OF re_search_partition [OF assms]]
  show s: "s = take i s @ LABEL @ ds @ dropWhile is_digit (drop (i + length LABEL) s)"
    by simp
  show "i \<le> length s"
  proof (rule ccontr)
    assume "\<not> i \<le> length s"
    then have "take i s = s" by simp
    with s have "s = s @ LABEL @ ds @ dropWhile is_digit (drop (i + length LABEL) s)"
      by simp
    then show False using LABEL_not_Nil by simp
  qed
qed

lemma match_here_local:
  assumes "length LABEL < length u"
  shows "(prefix LABEL (u @ t) \<and> takeWhile is_digit (drop (length LABEL) (u @ t)) \<noteq> [])
       = (prefix LABEL u \<and> takeWhile is_digit (drop (length LABEL) u) \<noteq> [])"
proof -
  have "\<not> (\<exists>us. LABEL = u @ us \<and> prefix us t)"
  proof
    assume "\<exists>us. LABEL = u @ us \<and> prefix us t"
    then obtain us where "LABEL = u @ us" by blast
    then have "length LABEL = length u + length us" by (metis length_append)
    with assms show False by simp
  qed
  then have p: "prefix LABEL (u @ t) = prefix LABEL u"
    unfolding prefix_append by blast
  from assms obtain d r where dr: "drop (length LABEL) u = d # r"
    by (cases "drop (length LABEL) u") auto
  with assms have "drop (length LABEL) (u @ t) = d # r @ t" by simp
  with dr p show ?thesis by simp
qed

lemma re_search_here:
  "prefix LABEL s \<Longrightarrow> takeWhile is_digit (drop (length LABEL) s) \<noteq> [] \<Longrightarrow>
   re_search s = Some (0, takeWhile is_digit (drop (length LABEL) s))"
  by (cases s) auto

lemma re_search_same_prefix:
  "re_search (pre @ LABEL @ t) = Some (length pre, ds) \<Longrightarrow>
   takeWhile is_digit t' \<noteq> [] \<Longrightarrow>
   re_search (pre @ LABEL @ t') = Some (length pre, takeWhile is_digit t')"
proof (induction pre)
  case Nil
  from Nil.prems(2) re_search_here [of "LABEL @ t'"] show ?case by simp
next
  case (Cons c p)
  let ?here = "\<lambda>x. prefix LABEL ((c # p) @ LABEL @ x)
     \<and> takeWhile is_digit (drop (length LABEL) ((c # p) @ LABEL @ x)) \<noteq> []"
  have loc: "?here x = ?here y" for x y
    using match_here_local [of "(c # p) @ LABEL" x] match_here_local [of "(c # p) @ LABEL" y]
    by simp
  have nt: "\<not> ?here t"
  proof
    assume "?here t"
    then have "re_search ((c # p) @ LABEL @ t)
      = Some (0, takeWhile is_digit (drop (length LABEL) ((c # p) @ LABEL @ t)))"
      by (intro re_search_here) simp_all
    with Cons.prems(1) show False by simp
  qed
  then have nt': "\<not> ?here t'" using loc [of t t'] by blast
  from nt Cons.prems(1) have "re_search (p @ LABEL @ t) = Some (length p, ds)"
    by (auto split: option.splits if_splits)
  from Cons.IH [OF this Cons.prems(2)] nt' show ?case
    by (auto split: option.splits)
qed

lemma replace_from_no_digit:
  "takeWhile is_digit rest = [] \<Longrightarrow>
   takeWhile is_digit (replace_from old (LABEL @ x) rest) = []"
proof (cases rest)
  case Nil
  then show ?thesis by simp
next
  case (Cons c cs)
  assume "takeWhile is_digit rest = []"
  with Cons have "\<not> is_digit c" by (auto split: if_splits)
  moreover have "takeWhile is_digit (LABEL @ y) = []" for y
    by (simp add: LABEL_def is_digit_def)
  ultimately show ?thesis using Cons by simp
qed

lemma takeWhile_dropWhile_Nil: "takeWhile P (dropWhile P xs) = []"
  by (induction xs) auto

lemma str_int_nonneg_digits:
  "0 \<le> k \<Longrightarrow> str_int k \<noteq> [] \<and> (\<forall>d\<in>set (str_int k). is_digit d)"
  by (auto simp: str_int_def str_nat_not_Nil dest: str_nat_digits)

lemma match_here_iff:
  "(prefix LABEL s \<and> takeWhile is_digit (drop (length LABEL) s) \<noteq> [])
   = (\<exists>d. is_digit d \<and> prefix (LABEL @ [d]) s)"
proof
  assume h: "prefix LABEL s \<and> takeWhile is_digit (drop (length LABEL) s) \<noteq> []"
  then obtain t where s: "s = LABEL @ t" by (auto simp: prefix_def)
  with h have "takeWhile is_digit t \<noteq> []" by simp
  then obtain d r where "t = d # r" "is_digit d" by (cases t) (auto split: if_splits)
  with s have "is_digit d \<and> prefix (LABEL @ [d]) s" by (simp add: prefix_def)
  then show "\<exists>d. is_digit d \<and> prefix (LABEL @ [d]) s" by blast
next
  assume "\<exists>d. is_digit d \<and> prefix (LABEL @ [d]) s"
  then obtain d r where "is_digit d" "s = LABEL @ d # r" by (auto simp: prefix_def)
  then show "prefix LABEL s \<and> takeWhile is_digit (drop (length LABEL) s) \<noteq> []" by simp
qed

lemma re_search_None_iff:
  "(re_search s = None) = (\<not> (\<exists>d. is_digit d \<and> sublist (LABEL @ [d]) s))"
proof (induction s)
  case Nil
  then show ?case by simp
next
  case (Cons c cs)
  have "(re_search (c # cs) = None)
      = (\<not> (prefix LABEL (c # cs) \<and> takeWhile is_digit (drop (length LABEL) (c # cs)) \<noteq> [])
         \<and> re_search cs = None)"
    by (auto split: option.splits)
  also have "\<dots> = (\<not> (\<exists>d. is_digit d \<and> prefix (LABEL @ [d]) (c # cs))
         \<and> \<not> (\<exists>d. is_digit d \<and> sublist (LABEL @ [d]) cs))"
    by (simp only: match_here_iff Cons.IH)
  also have "\<dots> = (\<not> (\<exists>d. is_digit d \<and> sublist (LABEL @ [d]) (c # cs)))"
    by (auto simp: sublist_Cons_right)
  finally show ?case .
qed

lemma sublist_across_char:
  assumes "c \<notin> set m" "m \<noteq> []"
  shows "sublist m (a @ c # b) = (sublist m a \<or> sublist m b)"
proof
  assume "sublist m (a @ c # b)"
  then consider (L) "sublist m a" | (R) "sublist m (c # b)"
    | (X) m1 m2 where "m = m1 @ m2" "suffix m1 a" "prefix m2 (c # b)"
    by (auto simp: sublist_append)
  then show "sublist m a \<or> sublist m b"
  proof cases
    case L
    then show ?thesis by simp
  next
    case R
    then have "prefix m (c # b) \<or> sublist m b" by (simp add: sublist_Cons_right)
    moreover have "\<not> prefix m (c # b)"
      using assms by (cases m) auto
    ultimately show ?thesis by simp
  next
    case X
    show ?thesis
    proof (cases m2)
      case Nil
      with X show ?thesis by auto
    next
      case (Cons e es)
      with X(3) have "e = c" by simp
      with X(1) Cons assms(1) show ?thesis by simp
    qed
  qed
next
  assume "sublist m a \<or> sublist m b"
  then show "sublist m (a @ c # b)"
  proof
    assume "sublist m a"
    then obtain p q where "a = p @ m @ q" by (auto simp: sublist_def)
    then have "a @ c # b = p @ m @ (q @ c # b)" by simp
    then show ?thesis unfolding sublist_def by blast
  next
    assume "sublist m b"
    then obtain p q where "b = p @ m @ q" by (auto simp: sublist_def)
    then have "a @ c # b = (a @ c # p) @ m @ q" by simp
    then show ?thesis unfolding sublist_def by blast
  qed
qed

lemma sublist_join_blocks:
  assumes "NL \<notin> set m" "m \<noteq> []"
  shows "xs \<noteq> [] \<Longrightarrow>
    sublist m (p @ str_join SEP xs)
      = (sublist m (p @ hd xs) \<or> (\<exists>x\<in>set (tl xs). sublist m (''---'' @ x)))"
proof (induction xs arbitrary: p)
  case Nil
  then show ?case by simp
next
  case (Cons x xs)
  show ?case
  proof (cases "xs = []")
    case True
    then show ?thesis by simp
  next
    case False
    then obtain y ys where xs: "xs = y # ys" by (cases xs) auto
    have "p @ str_join SEP (x # xs) = (p @ x) @ NL # (''---'' @ str_join SEP xs)"
      using False by (simp add: str_join_Cons SEP_def)
    then have "sublist m (p @ str_join SEP (x # xs))
        = (sublist m (p @ x) \<or> sublist m (''---'' @ str_join SEP xs))"
      using sublist_across_char [OF assms, of "p @ x" "''---'' @ str_join SEP xs"]
      by (simp only:)
    also have "sublist m (''---'' @ str_join SEP xs)
        = (sublist m (''---'' @ hd xs) \<or> (\<exists>x\<in>set (tl xs). sublist m (''---'' @ x)))"
      by (rule Cons.IH [OF False])
    finally show ?thesis using xs by auto
  qed
qed

lemma set_tl_filter: "set (tl (filter P xs)) \<subseteq> set (tl xs)"
proof (induction xs)
  case Nil
  then show ?case by simp
next
  case (Cons x xs)
  have "set (tl (filter P xs)) \<subseteq> set xs"
    by (metis filter_is_subset list.set_sel(2) subset_code(1) tl_Nil)
  then show ?case by auto
qed


lemma LABEL_digit_no_NL: "is_digit d \<Longrightarrow> NL \<notin> set (LABEL @ [d])"
  by (auto simp: LABEL_def NL_def is_digit_def)

lemma re_search_rejoined_None:
  assumes "re_search content = None"
  shows "re_search (str_join SEP (kept_parts_of content)) = None"
proof (rule ccontr)
  let ?parts = "str_split SEP content"
  let ?kept = "kept_parts_of content"
  assume "re_search (str_join SEP ?kept) \<noteq> None"
  then obtain d where d: "is_digit d" and sub: "sublist (LABEL @ [d]) (str_join SEP ?kept)"
    by (auto simp: re_search_None_iff)
  let ?m = "LABEL @ [d]"
  have m: "NL \<notin> set ?m" "?m \<noteq> []" using LABEL_digit_no_NL [OF d] by simp_all
  have kept: "?kept \<noteq> []"
  proof
    assume "?kept = []"
    with sub show False by simp
  qed
  have parts: "?parts \<noteq> []" by (rule str_split_not_Nil)
  from sub sublist_join_blocks [OF m kept, of "[]"]
  have "sublist ?m (hd ?kept) \<or> (\<exists>x\<in>set (tl ?kept). sublist ?m (''---'' @ x))" by simp
  then have "sublist ?m (hd ?parts) \<or> (\<exists>x\<in>set (tl ?parts). sublist ?m (''---'' @ x))"
  proof
    assume h: "sublist ?m (hd ?kept)"
    have "hd ?kept \<in> set ?parts"
      using kept by (metis hd_in_set kept_parts_of_filter filter_is_subset subsetD)
    with parts have "hd ?kept = hd ?parts \<or> hd ?kept \<in> set (tl ?parts)"
      by (cases ?parts) auto
    then show ?thesis
    proof
      assume "hd ?kept = hd ?parts"
      with h show ?thesis by simp
    next
      assume "hd ?kept \<in> set (tl ?parts)"
      moreover from h have "sublist ?m (''---'' @ hd ?kept)"
        using sublist_append by blast
      ultimately show ?thesis by blast
    qed
  next
    assume "\<exists>x\<in>set (tl ?kept). sublist ?m (''---'' @ x)"
    then show ?thesis
      using set_tl_filter [of "\<lambda>p. \<not> str_in MARKER p" ?parts]
      by (auto simp: kept_parts_of_filter)
  qed
  with sublist_join_blocks [OF m parts, of "[]"]
  have "sublist ?m (str_join SEP ?parts)" by simp
  then have "sublist ?m content" by (simp add: str_join_split)
  with d assms show False by (auto simp: re_search_None_iff)
qed

lemma update_summary_None: "re_search s = None \<Longrightarrow> update_summary s n = s"
  by (simp add: update_summary_def)

lemma b64_char_table:
  "list_all (\<lambda>i. b64_val (b64_char i) = Some i \<and> b64_char i \<noteq> CHR ''=''
      \<and> b64_char i \<noteq> CHR ''.'') [0..<64]"
  by code_simp

lemma b64_char_val: "i < 64 \<Longrightarrow> b64_val (b64_char i) = Some i"
  using b64_char_table by (simp add: list_all_iff)

lemma b64_char_not_pad: "i < 64 \<Longrightarrow> b64_char i \<noteq> CHR ''=''"
  using b64_char_table by (simp add: list_all_iff)

lemma b64_char_not_dot: "i < 64 \<Longrightarrow> b64_char i \<noteq> CHR ''.''"
  using b64_char_table by (simp add: list_all_iff)

lemma byte_bound: "of_char (a::char) < (256::nat)"
  by (metis of_char_mod_256 mod_less_divisor zero_less_numeral)

lemma group_bounds:
  fixes a b c :: nat
  assumes "a < 256" "b < 256" "c < 256"
  shows "a div 4 < 64" "a mod 4 * 16 < 64" "a mod 4 * 16 + b div 16 < 64"
    "b mod 16 * 4 < 64" "b mod 16 * 4 + c div 64 < 64" "c mod 64 < 64"
  using assms by auto

lemma group_byte_1:
  fixes a b :: nat
  assumes "b < 256"
  shows "a div 4 * 4 + (a mod 4 * 16 + b div 16) div 16 = a"
  using assms by (simp add: div_add1_eq)

lemma group_byte_2:
  fixes a b c :: nat
  assumes "b < 256" "c < 256"
  shows "(a mod 4 * 16 + b div 16) mod 16 * 16 + (b mod 16 * 4 + c div 64) div 4 = b"
proof -
  have "b div 16 < 16" using assms by simp
  then have 1: "(a mod 4 * 16 + b div 16) mod 16 = b div 16" by simp
  have "c div 64 < 4" using assms by simp
  then have 2: "(b mod 16 * 4 + c div 64) div 4 = b mod 16" by (simp add: div_add1_eq)
  show ?thesis unfolding 1 2 by simp
qed

lemma group_byte_3:
  fixes b c :: nat
  assumes "c < 256"
  shows "(b mod 16 * 4 + c div 64) mod 4 * 64 + c mod 64 = c"
proof -
  have "c div 64 < 4" using assms by simp
  then have "(b mod 16 * 4 + c div 64) mod 4 = c div 64" by simp
  then show ?thesis by simp
qed

lemma group_bytes:
  fixes a b c :: nat
  assumes "a < 256" "b < 256" "c < 256"
  shows "a div 4 * 4 + (a mod 4 * 16) div 16 = a"
    "a div 4 * 4 + (a mod 4 * 16 + b div 16) div 16 = a"
    "(a mod 4 * 16 + b div 16) mod 16 * 16 + (b mod 16 * 4) div 4 = b"
    "(a mod 4 * 16 + b div 16) mod 16 * 16 + (b mod 16 * 4 + c div 64) div 4 = b"
    "(b mod 16 * 4 + c div 64) mod 4 * 64 + c mod 64 = c"
proof -
  show "a div 4 * 4 + (a mod 4 * 16) div 16 = a" by simp
  show "a div 4 * 4 + (a mod 4 * 16 + b div 16) div 16 = a"
    by (rule group_byte_1 [OF assms(2)])
  show "(a mod 4 * 16 + b div 16) mod 16 * 16 + (b mod 16 * 4) div 4 = b"
    using group_byte_2 [of b 0 a] assms(2) by simp
  show "(a mod 4 * 16 + b div 16) mod 16 * 16 + (b mod 16 * 4 + c div 64) div 4 = b"
    by (rule group_byte_2 [OF assms(2,3)])
  show "(b mod 16 * 4 + c div 64) mod 4 * 64 + c mod 64 = c"
    by (rule group_byte_3 [OF assms(3)])
qed

lemma rstrip_append:
  "xs \<noteq> [] \<Longrightarrow> last xs \<noteq> c \<Longrightarrow> rstrip c (xs @ ys) = xs @ rstrip c ys"
proof -
  assume xs: "xs \<noteq> []" and l: "last xs \<noteq> c"
  then have "dropWhile (\<lambda>x. x = c) (rev xs) = rev xs"
    by (cases "rev xs") (auto simp: last_rev [symmetric] simp del: last_rev)
  then show ?thesis
    by (simp add: rstrip_def dropWhile_append)
qed

lemma length_urlsafe_b64encode: "length (urlsafe_b64encode data) mod 4 = 0"
  by (induction data rule: urlsafe_b64encode.induct) simp_all

lemma b64url_group:
  "b64url (a # b # c # rest) =
     [b64_char (of_char a div 4),
      b64_char (of_char a mod 4 * 16 + of_char b div 16),
      b64_char (of_char b mod 16 * 4 + of_char c div 64),
      b64_char (of_char c mod 64)] @ b64url rest"
proof -
  have "of_char c mod 64 < (64::nat)" by simp
  then have "b64_char (of_char c mod 64) \<noteq> CHR ''=''" by (rule b64_char_not_pad)
  then show ?thesis
    unfolding b64url_def urlsafe_b64encode.simps by (subst rstrip_append) simp_all
qed

lemma pad_two:
  "replicate ((4 - length [x, y] mod 4) mod 4) c = [c, c]"
  by (simp add: numeral_2_eq_2)

lemma pad_one:
  "replicate ((4 - length [x, y, z] mod 4) mod 4) c = [c]"
  by simp

lemma decode_one:
  assumes "b64_val w = Some i" "b64_val x = Some j"
  shows "urlsafe_b64decode [w, x, CHR ''='', CHR ''='']
       = Some [char_of (i * 4 + j div 16)]"
  using assms by simp

lemma decode_two:
  assumes "b64_val w = Some i" "b64_val x = Some j" "b64_val y = Some k" "y \<noteq> CHR ''=''"
  shows "urlsafe_b64decode [w, x, y, CHR ''='']
       = Some [char_of (i * 4 + j div 16), char_of (j mod 16 * 16 + k div 4)]"
  using assms by simp

lemma decode_three:
  assumes "b64_val w = Some i" "b64_val x = Some j" "b64_val y = Some k" "b64_val z = Some l"
    "y \<noteq> CHR ''=''" "z \<noteq> CHR ''=''"
  shows "urlsafe_b64decode ([w, x, y, z] @ rest)
       = (case urlsafe_b64decode rest of
            None \<Rightarrow> None
          | Some bs \<Rightarrow> Some (char_of (i * 4 + j div 16) # char_of (j mod 16 * 16 + k div 4)
                               # char_of (k mod 4 * 64 + l) # bs))"
  using assms by (simp split: option.splits)

lemma b64url_round_trip: "b64url_decode (b64url data) = Some data"
proof (induction data rule: urlsafe_b64encode.induct)
  case 1
  then show ?case by (simp add: b64url_def rstrip_def b64url_decode_def)
next
  case (2 a)
  note bd = group_bounds [OF byte_bound [of a] byte_bound [of a] byte_bound [of a]]
  note gb = group_bytes [OF byte_bound [of a] byte_bound [of a] byte_bound [of a]]
  have "b64url [a] = [b64_char (of_char a div 4), b64_char (of_char a mod 4 * 16)]"
    using b64_char_not_pad [OF bd(2)] by (simp add: b64url_def rstrip_def)
  then have "b64url_decode (b64url [a])
      = urlsafe_b64decode [b64_char (of_char a div 4), b64_char (of_char a mod 4 * 16),
          CHR ''='', CHR ''='']"
    unfolding b64url_decode_def by (simp only: pad_two append_Cons append_Nil)
  also have "\<dots> = Some [char_of ((of_char a :: nat) div 4 * 4 + (of_char a mod 4 * 16) div 16)]"
    by (rule decode_one [OF b64_char_val [OF bd(1)] b64_char_val [OF bd(2)]])
  finally show ?case unfolding gb(1) by simp
next
  case (3 a b)
  note bd = group_bounds [OF byte_bound [of a] byte_bound [of b] byte_bound [of b]]
  note gb = group_bytes [OF byte_bound [of a] byte_bound [of b] byte_bound [of b]]
  have "b64url [a, b] = [b64_char (of_char a div 4),
      b64_char (of_char a mod 4 * 16 + of_char b div 16), b64_char (of_char b mod 16 * 4)]"
    using b64_char_not_pad [OF bd(4)] by (simp add: b64url_def rstrip_def)
  then have "b64url_decode (b64url [a, b])
      = urlsafe_b64decode [b64_char (of_char a div 4),
          b64_char (of_char a mod 4 * 16 + of_char b div 16),
          b64_char (of_char b mod 16 * 4), CHR ''='']"
    unfolding b64url_decode_def by (simp only: pad_one append_Cons append_Nil)
  also have "\<dots> = Some [char_of ((of_char a :: nat) div 4 * 4
                              + (of_char a mod 4 * 16 + of_char b div 16) div 16),
        char_of (((of_char a :: nat) mod 4 * 16 + of_char b div 16) mod 16 * 16
                   + (of_char b mod 16 * 4) div 4)]"
    by (rule decode_two [OF b64_char_val [OF bd(1)] b64_char_val [OF bd(3)]
          b64_char_val [OF bd(4)] b64_char_not_pad [OF bd(4)]])
  finally show ?case unfolding gb(2) gb(3) by simp
next
  case (4 a b c rest)
  note bd = group_bounds [OF byte_bound [of a] byte_bound [of b] byte_bound [of c]]
  note gb = group_bytes [OF byte_bound [of a] byte_bound [of b] byte_bound [of c]]
  let ?pad = "\<lambda>s. replicate ((4 - length s mod 4) mod 4) (CHR ''='')"
  let ?q = "[b64_char (of_char a div 4),
      b64_char (of_char a mod 4 * 16 + of_char b div 16),
      b64_char (of_char b mod 16 * 4 + of_char c div 64),
      b64_char (of_char c mod 64)]"
  have pad: "?pad (?q @ b64url rest) = ?pad (b64url rest)" by simp
  have "b64url_decode (b64url (a # b # c # rest))
      = urlsafe_b64decode (?q @ (b64url rest @ ?pad (b64url rest)))"
    unfolding b64url_decode_def b64url_group pad by simp
  also have "\<dots> = (case urlsafe_b64decode (b64url rest @ ?pad (b64url rest)) of
        None \<Rightarrow> None
      | Some bs \<Rightarrow> Some (char_of ((of_char a :: nat) div 4 * 4
                               + (of_char a mod 4 * 16 + of_char b div 16) div 16)
          # char_of (((of_char a :: nat) mod 4 * 16 + of_char b div 16) mod 16 * 16
                      + (of_char b mod 16 * 4 + of_char c div 64) div 4)
          # char_of (((of_char b :: nat) mod 16 * 4 + of_char c div 64) mod 4 * 64
                      + of_char c mod 64)
          # bs))"
    by (rule decode_three [OF b64_char_val [OF bd(1)] b64_char_val [OF bd(3)]
          b64_char_val [OF bd(5)] b64_char_val [OF bd(6)]
          b64_char_not_pad [OF bd(5)] b64_char_not_pad [OF bd(6)]])
  also have "urlsafe_b64decode (b64url rest @ ?pad (b64url rest)) = Some rest"
    using "4.IH" by (simp add: b64url_decode_def)
  finally show ?case unfolding gb(2) gb(4) gb(5) by simp
qed

lemma set_rstrip: "x \<in> set (rstrip c s) \<Longrightarrow> x \<in> set s"
proof -
  assume "x \<in> set (rstrip c s)"
  then have "x \<in> set (dropWhile (\<lambda>x. x = c) (rev s))" by (simp add: rstrip_def)
  then have "x \<in> set (rev s)" by (rule set_dropWhileD)
  then show ?thesis by simp
qed

lemma no_dot_1:
  "b64_char i \<noteq> CHR ''.'' \<Longrightarrow> b64_char j \<noteq> CHR ''.'' \<Longrightarrow>
   CHR ''.'' \<notin> set [b64_char i, b64_char j, CHR ''='', CHR ''='']"
  by auto

lemma no_dot_2:
  "b64_char i \<noteq> CHR ''.'' \<Longrightarrow> b64_char j \<noteq> CHR ''.'' \<Longrightarrow> b64_char k \<noteq> CHR ''.'' \<Longrightarrow>
   CHR ''.'' \<notin> set [b64_char i, b64_char j, b64_char k, CHR ''='']"
  by auto

lemma no_dot_3:
  "b64_char i \<noteq> CHR ''.'' \<Longrightarrow> b64_char j \<noteq> CHR ''.'' \<Longrightarrow> b64_char k \<noteq> CHR ''.'' \<Longrightarrow>
   b64_char l \<noteq> CHR ''.'' \<Longrightarrow> CHR ''.'' \<notin> set r \<Longrightarrow>
   CHR ''.'' \<notin> set ([b64_char i, b64_char j, b64_char k, b64_char l] @ r)"
  by auto

lemma urlsafe_b64encode_no_dot: "CHR ''.'' \<notin> set (urlsafe_b64encode data)"
proof (induction data rule: urlsafe_b64encode.induct)
  case 1
  show ?case by simp
next
  case (2 a)
  note bd = group_bounds [OF byte_bound [of a] byte_bound [of a] byte_bound [of a]]
  show ?case
    unfolding urlsafe_b64encode.simps
    by (rule no_dot_1 [OF b64_char_not_dot [OF bd(1)] b64_char_not_dot [OF bd(2)]])
next
  case (3 a b)
  note bd = group_bounds [OF byte_bound [of a] byte_bound [of b] byte_bound [of b]]
  show ?case
    unfolding urlsafe_b64encode.simps
    by (rule no_dot_2 [OF b64_char_not_dot [OF bd(1)] b64_char_not_dot [OF bd(3)]
          b64_char_not_dot [OF bd(4)]])
next
  case (4 a b c rest)
  note bd = group_bounds [OF byte_bound [of a] byte_bound [of b] byte_bound [of c]]
  show ?case
    unfolding urlsafe_b64encode.simps
    by (rule no_dot_3 [OF b64_char_not_dot [OF bd(1)] b64_char_not_dot [OF bd(3)]
          b64_char_not_dot [OF bd(5)] b64_char_not_dot [OF bd(6)] "4.IH"])
qed

lemma b64url_no_dot: "CHR ''.'' \<notin> set (b64url data)"
  using set_rstrip urlsafe_b64encode_no_dot unfolding b64url_def by blast

lemma str_partition_char:
  "c \<notin> set a \<Longrightarrow> str_partition [c] (a @ [c] @ b) = Some (a, b)"
  by (induction a) auto

lemma str_split_char:
  "c \<notin> set a \<Longrightarrow> str_split [c] (a @ [c] @ b) = a # str_split [c] b"
  using str_partition_char [of c a b] by (subst str_split.simps) simp

lemma int_of_float_later: "x < real_of_int (int_of_float x + 3600)"
proof (cases "0 \<le> x")
  case True
  have "x < real_of_int \<lfloor>x\<rfloor> + 1" by (rule real_of_int_floor_add_one_gt)
  then have "x < real_of_int \<lfloor>x\<rfloor> + 3600" by linarith
  with True show ?thesis by (simp add: int_of_float_def)
next
  case False
  have "x \<le> real_of_int \<lceil>x\<rceil>" by (rule le_of_int_ceiling)
  then have "x < real_of_int \<lceil>x\<rceil> + 3600" by linarith
  with False show ?thesis by (simp add: int_of_float_def)
qed

lemma gen_jwt_segments:
  "str_split ''.'' (gen_jwt hmac_sha256 time_time)
     = b64url (json_dumps header_dict) # b64url (json_dumps (payload_dict time_time))
       # str_split ''.''
           (b64url (hmac_sha256 secret
              (b64url (json_dumps header_dict) @ ''.''
                 @ b64url (json_dumps (payload_dict time_time)))))"
proof -
  let ?h = "b64url (json_dumps header_dict)"
  let ?p = "b64url (json_dumps (payload_dict time_time))"
  let ?sig = "b64url (hmac_sha256 secret (?h @ ''.'' @ ?p))"
  have g: "gen_jwt hmac_sha256 time_time = ?h @ ''.'' @ (?p @ ''.'' @ ?sig)"
    by (simp only: gen_jwt_def Let_def)
  have a: "str_split ''.'' (?h @ ''.'' @ (?p @ ''.'' @ ?sig))
      = ?h # str_split ''.'' (?p @ ''.'' @ ?sig)"
    by (rule str_split_char [OF b64url_no_dot])
  have b: "str_split ''.'' (?p @ ''.'' @ ?sig) = ?p # str_split ''.'' ?sig"
    by (rule str_split_char [OF b64url_no_dot])
  show ?thesis by (simp only: g a b)
qed

lemma payload_dict_aud:
  "map_of (payload_dict time_time) ''aud'' = Some (JString ''mcp-guard'')"
  by (simp add: payload_dict_def)

lemma payload_dict_exp:
  "map_of (payload_dict time_time) ''exp'' = Some (JNumber (int_of_float time_time + 3600))"
  by (simp add: payload_dict_def)

lemma payload_text:
  \<open>json_dumps (payload_dict time_time)
     = ''{"sub": "jwt-user-123", "scope": "read:files", "iss": "https://test.mcp-guard.io", "aud": "mcp-guard", "exp": ''
       @ str_int (int_of_float time_time + 3600) @ ''}''\<close>
  by (simp add: json_dumps_def payload_dict_def json_string_def json_escape_def DQ_def
      BACKSLASH_def)

section \<open>The claims\<close>

text \<open>
  C1. The loop of \<open>filter_report\<close> retains exactly the blocks that do not contain the
  marker \<open>#### Magic value\<close>, in their original order, and counts exactly the blocks
  that contain it; containing the marker means that the block is some text, then the
  marker, then some text.
\<close>

theorem filter_loop_classifies:
  "kept_parts_of content = filter (\<lambda>p. \<not> str_in MARKER p) (str_split SEP content)
   \<and> magic_value_count_of content
       = int (length (filter (str_in MARKER) (str_split SEP content)))
   \<and> str_in MARKER part = (\<exists>before after. part = before @ MARKER @ after)"
  by (simp add: kept_parts_of_def magic_value_count_of_def filter_loop_acc
      str_in_sublist sublist_def)

text \<open>
  C6. Applying the transformation of \<open>filter_report\<close> to its own output removes no
  block and returns that output unchanged: the second pass is the identity with count 0.
\<close>

theorem filter_text_idempotent:
  "filter_text (fst (filter_text content)) = (fst (filter_text content), 0)"
  by (rule filter_text_free) (rule output_free)

text \<open>
  C5. When no block of the input contains the marker, the output is the input itself
  and the count is 0. In every case the rejoined text, cut again at the separator, gives
  back exactly the retained blocks, each with its text unchanged (when every block was
  removed there is no block to give back).
\<close>

theorem filter_text_round_trip:
  "((\<forall>p\<in>set (str_split SEP content). \<not> str_in MARKER p) \<longrightarrow>
      filter_text content = (content, 0))
   \<and> (kept_parts_of content \<noteq> [] \<longrightarrow>
      str_split SEP (str_join SEP (kept_parts_of content)) = kept_parts_of content)"
  by (simp add: filter_text_blocks_free str_split_join_SEP kept_parts_SEP_free)

theorem filter_text_round_trip_witness:
  "list_all (\<lambda>p. \<not> str_in MARKER p) (str_split SEP (''Header'' @ SEP @ ''OK block''))
   \<and> filter_text (''Header'' @ SEP @ ''OK block'') = (''Header'' @ SEP @ ''OK block'', 0)
   \<and> kept_parts_of (''Header'' @ SEP @ ''OK block'') \<noteq> []
   \<and> str_split SEP (str_join SEP (kept_parts_of (''Header'' @ SEP @ ''OK block'')))
       = kept_parts_of (''Header'' @ SEP @ ''OK block'')"
proof -
  have s: "str_split SEP (''Header'' @ SEP @ ''OK block'') = [''Header'', ''OK block'']"
    by code_simp
  have k: "kept_parts_of (''Header'' @ SEP @ ''OK block'') = [''Header'', ''OK block'']"
    by code_simp
  have l: "list_all (\<lambda>p. \<not> str_in MARKER p) (str_split SEP (''Header'' @ SEP @ ''OK block''))"
    unfolding s by code_simp
  then have h: "\<forall>p\<in>set (str_split SEP (''Header'' @ SEP @ ''OK block'')). \<not> str_in MARKER p"
    by (simp only: list_all_iff)
  have n: "kept_parts_of (''Header'' @ SEP @ ''OK block'') \<noteq> []"
    unfolding k by simp
  from filter_text_round_trip [of "''Header'' @ SEP @ ''OK block''"] h n l
  show ?thesis by blast
qed

text \<open>
  C4. On a well-formed report the first part of the split is the header block, which is
  not a magic value issue. The loop then retains it as the first element of
  \<open>kept_parts\<close>, and the issue blocks retained after it plus the blocks removed are all
  the parts but the header:
  \<open>len(retainedBlocks) + removedCount == len(originalBlocks) - 1\<close>.
\<close>

theorem block_count_conservation:
  "str_split SEP content = header # blocks \<Longrightarrow> \<not> str_in MARKER header \<Longrightarrow>
   kept_parts_of content = header # filter (\<lambda>p. \<not> str_in MARKER p) blocks
   \<and> magic_value_count_of content = int (length (filter (str_in MARKER) blocks))
   \<and> int (length (tl (kept_parts_of content))) + magic_value_count_of content
       = int (length (str_split SEP content)) - 1"
proof -
  assume split: "str_split SEP content = header # blocks"
    and header: "\<not> str_in MARKER header"
  have kept: "kept_parts_of content = header # filter (\<lambda>p. \<not> str_in MARKER p) blocks"
    using split header by (simp add: kept_parts_of_filter)
  have removed: "magic_value_count_of content = int (length (filter (str_in MARKER) blocks))"
    using split header by (simp add: magic_value_count_of_length)
  have "length (filter (\<lambda>p. \<not> str_in MARKER p) blocks)
          + length (filter (str_in MARKER) blocks) = length blocks"
    using sum_length_filter_compl [of "str_in MARKER" blocks] by simp
  then have "int (length (tl (kept_parts_of content))) + magic_value_count_of content
      = int (length (str_split SEP content)) - 1"
    unfolding kept removed split by simp
  with kept removed show ?thesis by blast
qed

theorem block_count_conservation_witness:
  "str_split SEP
      (''Header\<newline>- **Issues Found:** 3'' @ SEP @ ''\<newline>#### Magic value\<newline>foo'' @ SEP
         @ ''\<newline>OK block'')
     = ''Header\<newline>- **Issues Found:** 3''
       # [''\<newline>#### Magic value\<newline>foo'', ''\<newline>OK block'']
   \<and> \<not> str_in MARKER ''Header\<newline>- **Issues Found:** 3''
   \<and> kept_parts_of
      (''Header\<newline>- **Issues Found:** 3'' @ SEP @ ''\<newline>#### Magic value\<newline>foo'' @ SEP
         @ ''\<newline>OK block'')
     = [''Header\<newline>- **Issues Found:** 3'', ''\<newline>OK block'']
   \<and> magic_value_count_of
      (''Header\<newline>- **Issues Found:** 3'' @ SEP @ ''\<newline>#### Magic value\<newline>foo'' @ SEP
         @ ''\<newline>OK block'') = 1
   \<and> int (length (tl (kept_parts_of
      (''Header\<newline>- **Issues Found:** 3'' @ SEP @ ''\<newline>#### Magic value\<newline>foo'' @ SEP
         @ ''\<newline>OK block''))))
     + magic_value_count_of
      (''Header\<newline>- **Issues Found:** 3'' @ SEP @ ''\<newline>#### Magic value\<newline>foo'' @ SEP
         @ ''\<newline>OK block'')
     = int (length (str_split SEP
      (''Header\<newline>- **Issues Found:** 3'' @ SEP @ ''\<newline>#### Magic value\<newline>foo'' @ SEP
         @ ''\<newline>OK block''))) - 1"
proof -
  let ?c = "''Header\<newline>- **Issues Found:** 3'' @ SEP @ ''\<newline>#### Magic value\<newline>foo'' @ SEP
         @ ''\<newline>OK block''"
  have s: "str_split SEP ?c
      = ''Header\<newline>- **Issues Found:** 3''
        # [''\<newline>#### Magic value\<newline>foo'', ''\<newline>OK block'']"
    by code_simp
  have h: "\<not> str_in MARKER ''Header\<newline>- **Issues Found:** 3''"
    by code_simp
  have k: "kept_parts_of ?c = [''Header\<newline>- **Issues Found:** 3'', ''\<newline>OK block'']"
    by code_simp
  have n: "magic_value_count_of ?c = 1"
    by code_simp
  from block_count_conservation [OF s h] s h k n show ?thesis
    by blast
qed



text \<open>
  C2, as the code has it. The line to replace is rebuilt from the parsed number, so the
  update reaches the summary line when its number is written as \<open>str\<close> writes it,
  without leading zeros. Then the output consists of the rejoined text up to the
  first match, the label, the number \<open>C - removedCount\<close> and a remainder that does not
  begin with a digit; and when \<open>C - removedCount\<close> is not negative, searching the
  output for the pattern finds this line with this value.
\<close>

theorem summary_count_updated:
  "re_search (str_join SEP (kept_parts_of content)) = Some (i, ds) \<Longrightarrow>
   str_int (py_int ds) = ds \<Longrightarrow>
   fst (filter_text content)
     = take i (str_join SEP (kept_parts_of content)) @ LABEL
         @ str_int (py_int ds - magic_value_count_of content)
         @ str_replace (LABEL @ ds)
             (LABEL @ str_int (py_int ds - magic_value_count_of content))
             (dropWhile is_digit (drop (i + length LABEL) (str_join SEP (kept_parts_of content))))
   \<and> length (take i (str_join SEP (kept_parts_of content))) = i
   \<and> takeWhile is_digit
        (str_replace (LABEL @ ds)
           (LABEL @ str_int (py_int ds - magic_value_count_of content))
           (dropWhile is_digit (drop (i + length LABEL) (str_join SEP (kept_parts_of content)))))
       = []
   \<and> (magic_value_count_of content \<le> py_int ds \<longrightarrow>
        re_search (fst (filter_text content))
          = Some (i, str_int (py_int ds - magic_value_count_of content)))"
proof -
  let ?s = "str_join SEP (kept_parts_of content)"
  let ?n = "magic_value_count_of content"
  let ?rest = "dropWhile is_digit (drop (i + length LABEL) ?s)"
  let ?rest' = "str_replace (LABEL @ ds) (LABEL @ str_int (py_int ds - ?n)) ?rest"
  assume found: "re_search ?s = Some (i, ds)" and canon: "str_int (py_int ds) = ds"
  have out: "fst (filter_text content)
      = take i ?s @ LABEL @ str_int (py_int ds - ?n) @ ?rest'"
    using update_summary_found [OF found canon] by (simp add: filter_text_eq)
  have len: "length (take i ?s) = i"
    using re_search_decomp(2) [OF found] by simp
  have tail: "takeWhile is_digit ?rest' = []"
    by (simp add: str_replace_nonempty LABEL_not_Nil replace_from_no_digit
        takeWhile_dropWhile_Nil)
  have again: "re_search (fst (filter_text content)) = Some (i, str_int (py_int ds - ?n))"
    if le: "?n \<le> py_int ds"
  proof -
    from le str_int_nonneg_digits [of "py_int ds - ?n"]
    have nd: "str_int (py_int ds - ?n) \<noteq> []" "\<forall>d\<in>set (str_int (py_int ds - ?n)). is_digit d"
      by simp_all
    then have tw: "takeWhile is_digit (str_int (py_int ds - ?n) @ ?rest')
        = str_int (py_int ds - ?n)"
      using tail by (simp add: takeWhile_append2)
    have "re_search (take i ?s @ LABEL @ ds @ ?rest) = Some (length (take i ?s), ds)"
      using re_search_decomp(1) [OF found] found len by simp
    from re_search_same_prefix [OF this, of "str_int (py_int ds - ?n) @ ?rest'"] tw nd(1) len
    show ?thesis by (simp add: out)
  qed
  from out len tail again show ?thesis by blast
qed

theorem summary_count_updated_witness:
  "re_search (str_join SEP (kept_parts_of
      (''Header\<newline>- **Issues Found:** 3'' @ SEP @ ''\<newline>#### Magic value\<newline>foo'' @ SEP
         @ ''\<newline>OK block''))) = Some (7, ''3'')
   \<and> str_int (py_int ''3'') = ''3''
   \<and> magic_value_count_of
      (''Header\<newline>- **Issues Found:** 3'' @ SEP @ ''\<newline>#### Magic value\<newline>foo'' @ SEP
         @ ''\<newline>OK block'') \<le> py_int ''3''
   \<and> re_search (fst (filter_text
      (''Header\<newline>- **Issues Found:** 3'' @ SEP @ ''\<newline>#### Magic value\<newline>foo'' @ SEP
         @ ''\<newline>OK block''))) = Some (7, ''2'')"
proof -
  let ?c = "''Header\<newline>- **Issues Found:** 3'' @ SEP @ ''\<newline>#### Magic value\<newline>foo'' @ SEP
         @ ''\<newline>OK block''"
  have f: "re_search (str_join SEP (kept_parts_of ?c)) = Some (7, ''3'')"
    by code_simp
  have c: "str_int (py_int ''3'') = ''3''"
    by code_simp
  have n: "magic_value_count_of ?c = 1" "py_int ''3'' = 3"
    by code_simp+
  have d: "str_int (3 - 1) = ''2''"
    by code_simp
  have le: "magic_value_count_of ?c \<le> py_int ''3''"
    unfolding n by simp
  have r: "re_search (fst (filter_text ?c)) = Some (7, ''2'')"
    using summary_count_updated [OF f c, THEN conjunct2, THEN conjunct2, THEN conjunct2] le
    unfolding n d by blast
  show ?thesis
    using f c le r by blast
qed

text \<open>
  C2 as stated fails when the number of the summary line has a leading zero: the
  pattern matches \<open>03\<close> with value 3, one block is removed, and the text written still
  says \<open>03\<close>, not 2, because the line \<open>- **Issues Found:** 3\<close> does not occur.
\<close>

theorem summary_count_leading_zero_counterexample:
  "re_search (str_join SEP (kept_parts_of
      (''- **Issues Found:** 03'' @ SEP @ ''\<newline>#### Magic value''))) = Some (0, ''03'')
   \<and> py_int ''03'' = 3
   \<and> filter_text (''- **Issues Found:** 03'' @ SEP @ ''\<newline>#### Magic value'')
       = (''- **Issues Found:** 03'', 1)"
  by code_simp

text \<open>
  C7. When the pattern \<open>- **Issues Found:** <integer>\<close> matches nowhere in the input,
  it matches nowhere in the rejoined text either, the text written is the rejoined text
  as it is, and \<open>filter_report\<close> returns normally (given that the input file exists and
  the output path can be written). Whenever the pattern is absent from the rejoined
  text, the summary update leaves that text unchanged.
\<close>

theorem pattern_absent_is_no_error:
  "(re_search (str_join SEP (kept_parts_of content)) = None \<longrightarrow>
      fst (filter_text content) = str_join SEP (kept_parts_of content))
   \<and> (re_search content = None \<longrightarrow>
      re_search (str_join SEP (kept_parts_of content)) = None
      \<and> fst (filter_text content) = str_join SEP (kept_parts_of content)
      \<and> (files w input_path = Some content \<and> writable w output_path \<longrightarrow>
           fst (filter_report input_path output_path w) = Inr ()
           \<and> files (snd (filter_report input_path output_path w)) output_path
               = Some (str_join SEP (kept_parts_of content))))"
proof -
  have a: "fst (filter_text content) = str_join SEP (kept_parts_of content)"
    if "re_search (str_join SEP (kept_parts_of content)) = None"
    using that by (simp add: filter_text_eq update_summary_None)
  have b: "fst (filter_report input_path output_path w) = Inr ()
      \<and> files (snd (filter_report input_path output_path w)) output_path
          = Some (fst (filter_text content))"
    if "files w input_path = Some content" "writable w output_path"
    using that by (simp add: filter_report_def emit_def Let_def split: prod.splits)
  from a b re_search_rejoined_None show ?thesis by auto
qed

theorem pattern_absent_is_no_error_witness:
  "re_search (''Header'' @ SEP @ ''\<newline>#### Magic value\<newline>foo'' @ SEP @ ''\<newline>OK block'') = None
   \<and> files \<lparr>files = [''in.md'' \<mapsto> ''Header'' @ SEP @ ''\<newline>#### Magic value\<newline>foo'' @ SEP
                                    @ ''\<newline>OK block''],
             writable = (\<lambda>p. True), trace = []\<rparr> ''in.md''
       = Some (''Header'' @ SEP @ ''\<newline>#### Magic value\<newline>foo'' @ SEP @ ''\<newline>OK block'')
   \<and> fst (filter_report ''in.md'' ''out.md''
        \<lparr>files = [''in.md'' \<mapsto> ''Header'' @ SEP @ ''\<newline>#### Magic value\<newline>foo'' @ SEP
                                    @ ''\<newline>OK block''],
         writable = (\<lambda>p. True), trace = []\<rparr>) = Inr ()
   \<and> files (snd (filter_report ''in.md'' ''out.md''
        \<lparr>files = [''in.md'' \<mapsto> ''Header'' @ SEP @ ''\<newline>#### Magic value\<newline>foo'' @ SEP
                                    @ ''\<newline>OK block''],
         writable = (\<lambda>p. True), trace = []\<rparr>)) ''out.md''
       = Some (''Header'' @ SEP @ ''\<newline>OK block'')"
proof -
  let ?c = "''Header'' @ SEP @ ''\<newline>#### Magic value\<newline>foo'' @ SEP @ ''\<newline>OK block''"
  let ?w = "\<lparr>files = [''in.md'' \<mapsto> ?c], writable = (\<lambda>p. True), trace = []\<rparr>"
  have n: "re_search ?c = None"
    by code_simp
  have f: "files ?w ''in.md'' = Some ?c" "writable ?w ''out.md''"
    by simp_all
  have k: "str_join SEP (kept_parts_of ?c) = ''Header'' @ SEP @ ''\<newline>OK block''"
    by code_simp
  from pattern_absent_is_no_error [of ?c ?w "''in.md''" "''out.md''"] n f
  have "fst (filter_report ''in.md'' ''out.md'' ?w) = Inr ()
      \<and> files (snd (filter_report ''in.md'' ''out.md'' ?w)) ''out.md''
          = Some (str_join SEP (kept_parts_of ?c))"
    by blast
  with n f(1) show ?thesis unfolding k by blast
qed




text \<open>
  C8. Run with fewer than two path arguments, the program prints the usage message and
  exits with status 1; the files are untouched and no file is opened. Run with the two
  paths, an input file that exists and an output path that can be written, it opens
  the input, prints the count of removed blocks, writes the transformed text to the
  output path and exits with status 0.
\<close>

theorem main_exit_behaviour:
  "(length argv < 3 \<longrightarrow>
      main argv w
        = (1, w\<lparr>trace := trace w @ [Print ''Usage: python clean_report.py <input> <output>'']\<rparr>))
   \<and> (3 \<le> length argv \<and> files w (argv ! 1) = Some content \<and> writable w (argv ! 2) \<longrightarrow>
      main argv w
        = (0, w\<lparr>files := (files w)(argv ! 2 \<mapsto> fst (filter_text content)),
                 trace := trace w @
                   [OpenRead (argv ! 1),
                    Print (''Removed '' @ str_int (snd (filter_text content))
                             @ '' magic value issues.''),
                    OpenWrite (argv ! 2)]\<rparr>))"
  by (simp add: main_def filter_report_def emit_def Let_def split: prod.splits)

theorem main_exit_behaviour_witness:
  "length [''clean_report.py'', ''in.md''] < 3
   \<and> main [''clean_report.py'', ''in.md'']
        \<lparr>files = [''in.md'' \<mapsto> ''Header''], writable = (\<lambda>p. True), trace = []\<rparr>
       = (1, \<lparr>files = [''in.md'' \<mapsto> ''Header''], writable = (\<lambda>p. True),
              trace = [Print ''Usage: python clean_report.py <input> <output>'']\<rparr>)
   \<and> 3 \<le> length [''clean_report.py'', ''in.md'', ''out.md'']
   \<and> fst (main [''clean_report.py'', ''in.md'', ''out.md'']
        \<lparr>files = [''in.md'' \<mapsto> ''Header''], writable = (\<lambda>p. True), trace = []\<rparr>) = 0
   \<and> trace (snd (main [''clean_report.py'', ''in.md'', ''out.md'']
        \<lparr>files = [''in.md'' \<mapsto> ''Header''], writable = (\<lambda>p. True), trace = []\<rparr>))
       = [OpenRead ''in.md'', Print ''Removed 0 magic value issues.'', OpenWrite ''out.md'']
   \<and> files (snd (main [''clean_report.py'', ''in.md'', ''out.md'']
        \<lparr>files = [''in.md'' \<mapsto> ''Header''], writable = (\<lambda>p. True), trace = []\<rparr>)) ''out.md''
       = Some ''Header''"
proof -
  let ?w = "\<lparr>files = [''in.md'' \<mapsto> ''Header''], writable = (\<lambda>p. True), trace = []\<rparr>"
  have t: "filter_text ''Header'' = (''Header'', 0)" "str_int 0 = ''0''"
    by code_simp+
  have a: "main [''clean_report.py'', ''in.md''] ?w
      = (1, ?w\<lparr>trace := trace ?w @ [Print ''Usage: python clean_report.py <input> <output>'']\<rparr>)"
    using main_exit_behaviour [of "[''clean_report.py'', ''in.md'']" ?w] by simp
  have b: "main [''clean_report.py'', ''in.md'', ''out.md''] ?w
      = (0, ?w\<lparr>files := (files ?w)(''out.md'' \<mapsto> fst (filter_text ''Header'')),
                 trace := trace ?w @
                   [OpenRead ''in.md'',
                    Print (''Removed '' @ str_int (snd (filter_text ''Header''))
                             @ '' magic value issues.''),
                    OpenWrite ''out.md'']\<rparr>)"
    using main_exit_behaviour [of "[''clean_report.py'', ''in.md'', ''out.md'']" ?w "''Header''"]
    by simp
  show ?thesis
    unfolding a b by (simp add: t)
qed

text \<open>
  C9. For every digest function and every value of the clock, the second segment of
  the token between dots is the payload segment: decoding it from base64url gives back
  the JSON text that \<open>json.dumps\<close> wrote for the payload dictionary. That text is an
  object in which \<open>aud\<close> is \<open>mcp-guard\<close> and \<open>exp\<close> is the clock value truncated to an
  integer plus 3600, a number greater than the clock value.
\<close>

theorem token_payload_decodes:
  \<open>b64url_decode (str_split ''.'' (gen_jwt hmac_sha256 time_time) ! 1)
     = Some (''{"sub": "jwt-user-123", "scope": "read:files", "iss": "https://test.mcp-guard.io", "aud": "mcp-guard", "exp": ''
             @ str_int (int_of_float time_time + 3600) @ ''}'')
   \<and> json_dumps (payload_dict time_time)
     = ''{"sub": "jwt-user-123", "scope": "read:files", "iss": "https://test.mcp-guard.io", "aud": "mcp-guard", "exp": ''
       @ str_int (int_of_float time_time + 3600) @ ''}''
   \<and> map_of (payload_dict time_time) ''aud'' = Some (JString ''mcp-guard'')
   \<and> map_of (payload_dict time_time) ''exp'' = Some (JNumber (int_of_float time_time + 3600))
   \<and> time_time < real_of_int (int_of_float time_time + 3600)\<close>
proof (intro conjI)
  have "str_split ''.'' (gen_jwt hmac_sha256 time_time) ! 1
      = b64url (json_dumps (payload_dict time_time))"
    unfolding gen_jwt_segments by simp
  then have "b64url_decode (str_split ''.'' (gen_jwt hmac_sha256 time_time) ! 1)
      = Some (json_dumps (payload_dict time_time))"
    by (simp only: b64url_round_trip)
  then show \<open>b64url_decode (str_split ''.'' (gen_jwt hmac_sha256 time_time) ! 1)
     = Some (''{"sub": "jwt-user-123", "scope": "read:files", "iss": "https://test.mcp-guard.io", "aud": "mcp-guard", "exp": ''
             @ str_int (int_of_float time_time + 3600) @ ''}'')\<close>
    by (simp only: payload_text)
  show \<open>json_dumps (payload_dict time_time)
     = ''{"sub": "jwt-user-123", "scope": "read:files", "iss": "https://test.mcp-guard.io", "aud": "mcp-guard", "exp": ''
       @ str_int (int_of_float time_time + 3600) @ ''}''\<close>
    by (rule payload_text)
  show "map_of (payload_dict time_time) ''aud'' = Some (JString ''mcp-guard'')"
    by (rule payload_dict_aud)
  show "map_of (payload_dict time_time) ''exp'' = Some (JNumber (int_of_float time_time + 3600))"
    by (rule payload_dict_exp)
  show "time_time < real_of_int (int_of_float time_time + 3600)"
    by (rule int_of_float_later)
qed

end
